theory Spec2Isabelle
  imports Main "HOL-Library.Char_ord" "HOL-Library.List_Lexorder" "HOL-Library.Sublist" "HOL-Library.Word"
begin

section \<open>Values, nodes and links\<close>

text \<open>
  A Go \<^verbatim>\<open>interface{}\<close> holding a decoded document. \<open>VNode\<close> is a value of dynamic
  type \<^verbatim>\<open>Node\<close> (\<^verbatim>\<open>map[string]interface{}\<close>), \<open>VArr\<close> one of dynamic type
  \<^verbatim>\<open>[]interface{}\<close>, \<open>VNil\<close> the nil interface. Every other dynamic type
  (a typed slice such as \<^verbatim>\<open>[]int\<close>, a value of the named type \<^verbatim>\<open>Link\<close>, ...)
  fails both type assertions of the package and is the scalar \<open>VOpaque\<close>, named
  by a tag. A nil map and an empty one are both \<open>VNode []\<close>, a nil slice and an
  empty one both \<open>VArr []\<close>: the traversals treat them alike. Where nil, the
  identity of a map and floating-point numbers matter, in the equality of links, the
  values are those of the section on that equality.

  A Go map is kept as an association list: the order of the list stands for the
  order in which \<^verbatim>\<open>range\<close> happens to enumerate the map. A Go map holds each key
  once, which is \<open>wf_val\<close> below.
\<close>

datatype val =
    VNil
  | VBool bool
  | VInt int
  | VStr string
  | VOpaque string
  | VArr "val list"
  | VNode "(string \<times> val) list"

type_synonym Node = "(string \<times> val) list"

type_synonym Link = "(string \<times> val) list"

text \<open>
  Go error values. \<open>NoHashInLink\<close> is the error \<^verbatim>\<open>Hash\<close> makes with
  \<^verbatim>\<open>errors.New("no hash in link")\<close>; \<open>Foreign\<close> is an error value made
  outside this package (by the multihash library, or by a consumer's callback), named by
  its message.

  Modelled from the spec: the two sentinel errors \<^verbatim>\<open>stream.NodeReadAbort\<close> and
  \<^verbatim>\<open>stream.NodeReadSkip\<close> of the stream package, which is not among the sources:
  the control outcomes Abort and SkipSubtree of the spec, two distinct values that the
  code compares with \<^verbatim>\<open>==\<close>. The outcome Continue is the nil error, \<open>None\<close>.
\<close>

datatype error =
    NodeReadAbort
  | NodeReadSkip
  | NoHashInLink
  | Foreign string

definition LinkKey :: string where
  "LinkKey = ''/''"


text \<open>\<^verbatim>\<open>nc[k]\<close> on a Go map: the stored value, or the zero value (nil) for a missing key.\<close>

definition index_map :: "Node \<Rightarrow> string \<Rightarrow> val" where
  "index_map nc k = (case map_of nc k of Some v \<Rightarrow> v | None \<Rightarrow> VNil)"

text \<open>\<^verbatim>\<open>m[k] = v\<close> on a Go map.\<close>

fun assign :: "Node \<Rightarrow> string \<Rightarrow> val \<Rightarrow> Node" where
  "assign [] k v = [(k, v)]"
| "assign ((k', v') # m) k v = (if k' = k then (k, v) # m else (k', v') # assign m k v)"

definition LinkStr :: "Link \<Rightarrow> string" where
  "LinkStr l = (case index_map l LinkKey of VStr s \<Rightarrow> s | _ \<Rightarrow> [])"

text \<open>
  \<^verbatim>\<open>mh.FromB58String\<close> belongs to another library: it is the parameter \<open>FromB58String\<close>,
  giving the decoded multihash or the message of the error it made. An error of that
  library is a \<open>Foreign\<close> one; the error \<open>Hash\<close> makes itself is \<open>NoHashInLink\<close>.
\<close>

definition Hash :: "(string \<Rightarrow> string + 'h) \<Rightarrow> Link \<Rightarrow> error + 'h" where
  "Hash FromB58String l =
     (let s = LinkStr l in
      if s = [] then Inl NoHashInLink
      else (case FromB58String s of Inl msg \<Rightarrow> Inl (Foreign msg) | Inr h \<Rightarrow> Inr h))"

definition IsLink :: "val \<Rightarrow> bool" where
  "IsLink v =
     (case v of
        VNode vn \<Rightarrow>
          (let ok = (case index_map vn LinkKey of VStr _ \<Rightarrow> True | _ \<Rightarrow> False)
           in ok \<and> length vn = 1)
      | _ \<Rightarrow> False)"

text \<open>
  \<^verbatim>\<open>LinkCast\<close> returns \<^verbatim>\<open>(l, true)\<close>, here \<open>Some l\<close>, or the zero values
  \<^verbatim>\<open>(nil, false)\<close>, here \<open>None\<close>. The loop copies the entries in the order the
  map enumerates them.
\<close>

definition LinkCast :: "val \<Rightarrow> Link option" where
  "LinkCast v =
     (if \<not> IsLink v then None
      else (case v of
              VNode vn \<Rightarrow> Some (fold (\<lambda>kv l. assign l (fst kv) (snd kv)) vn [])
            | _ \<Rightarrow> None))"

section \<open>The stream reader\<close>

text \<open>
  Modelled from the spec: the token kinds and the callback type \<^verbatim>\<open>stream.ReadFun\<close>
  of the stream package, which is not among the sources. The seven constants are the
  spec's StartMap, Key, EndMap, StartArray, Index, EndArray and Value. A callback gets
  the path, the token kind and the payload, as the code passes them, and returns an
  error; a Go closure may keep state of its own, which is threaded through as \<open>'s\<close>.
\<close>

datatype ReaderToken =
    TokenNode
  | TokenKey
  | TokenEndNode
  | TokenArray
  | TokenIndex
  | TokenEndArray
  | TokenValue

type_synonym 's ReadFun = "val list \<Rightarrow> ReaderToken \<Rightarrow> val \<Rightarrow> 's \<Rightarrow> error option \<times> 's"

text \<open>
  \<^verbatim>\<open>read\<close>, with its two loops as \<open>read_keys\<close> (over the sorted keys, looking each
  one up in the map) and \<open>read_elems\<close> (over the elements of a slice, with the running
  index). A loop returns \<open>None\<close> when it ran to its end and the error of an early
  \<^verbatim>\<open>return\<close> otherwise. \<^verbatim>\<open>sort.Strings\<close> is \<open>sort\<close> on the byte-wise
  lexicographic order of \<open>string\<close>. A path is a \<^verbatim>\<open>[]interface{}\<close> of keys
  (\<open>VStr\<close>) and indices (\<open>VInt\<close>).
\<close>

lemma size_index_map:
  "size (index_map nc k) < Suc (size_list (size_prod (\<lambda>_. 0) size) nc)"
  by (induction nc) (auto simp: index_map_def split: option.splits)

function read :: "val \<Rightarrow> 's ReadFun \<Rightarrow> val list \<Rightarrow> 's \<Rightarrow> error option \<times> 's"
  and read_keys :: "Node \<Rightarrow> 's ReadFun \<Rightarrow> val list \<Rightarrow> string list \<Rightarrow> 's \<Rightarrow> error option \<times> 's"
  and read_elems :: "'s ReadFun \<Rightarrow> val list \<Rightarrow> nat \<Rightarrow> val list \<Rightarrow> 's \<Rightarrow> error option \<times> 's"
where
  "read (VNode nc) fun path s =
     (let (err, s) = fun path TokenNode VNil s in
      if err \<noteq> None then (err, s)
      else let (err, s) = read_keys nc fun path (sort (map fst nc)) s in
      if err \<noteq> None then (err, s)
      else fun path TokenEndNode VNil s)"
| "read (VArr sc) fun path s =
     (let (err, s) = fun path TokenArray VNil s in
      if err \<noteq> None then (err, s)
      else let (err, s) = read_elems fun path 0 sc s in
      if err \<noteq> None then (err, s)
      else fun path TokenEndArray VNil s)"
| "read VNil fun path s = fun path TokenValue VNil s"
| "read (VBool b) fun path s = fun path TokenValue (VBool b) s"
| "read (VInt i) fun path s = fun path TokenValue (VInt i) s"
| "read (VStr x) fun path s = fun path TokenValue (VStr x) s"
| "read (VOpaque x) fun path s = fun path TokenValue (VOpaque x) s"
| "read_keys nc fun path [] s = (None, s)"
| "read_keys nc fun path (k # ks) s =
     (let (err, s) = fun path TokenKey (VStr k) s in
      if err = Some NodeReadSkip then read_keys nc fun path ks s
      else if err \<noteq> None then (err, s)
      else let (err, s) = read (index_map nc k) fun (path @ [VStr k]) s in
      if err \<noteq> None \<and> err \<noteq> Some NodeReadSkip then (err, s)
      else read_keys nc fun path ks s)"
| "read_elems fun path i [] s = (None, s)"
| "read_elems fun path i (v # vs) s =
     (let (err, s) = fun path TokenIndex (VInt (int i)) s in
      if err = Some NodeReadSkip then read_elems fun path (Suc i) vs s
      else if err \<noteq> None then (err, s)
      else let (err, s) = read v fun (path @ [VInt (int i)]) s in
      if err \<noteq> None \<and> err \<noteq> Some NodeReadSkip then (err, s)
      else read_elems fun path (Suc i) vs s)"
  by pat_completeness auto

termination
  by (relation "inv_image (less_than <*lex*> less_than)
     (\<lambda>x. case x of
        Inl (v, _) \<Rightarrow>
          (size v, Suc (case v of VNode nc \<Rightarrow> length nc | VArr sc \<Rightarrow> length sc | _ \<Rightarrow> 0))
      | Inr (Inl (nc, _, _, ks, _)) \<Rightarrow> (size (VNode nc), length ks)
      | Inr (Inr (_, _, _, vs, _)) \<Rightarrow> (Suc (size_list size vs), length vs))")
    (auto simp: size_index_map)

definition Read :: "Node \<Rightarrow> 's ReadFun \<Rightarrow> 's \<Rightarrow> error option \<times> 's" where
  "Read n fun s =
     (let (err, s) = read (VNode n) fun [] s in
      (if err = Some NodeReadAbort \<or> err = Some NodeReadSkip then None else err, s))"

subsection \<open>The tokens a traversal emits\<close>

text \<open>
  The tokens emitted are the calls of the callback. \<open>traced fun\<close> is the callback
  \<open>fun\<close> that also writes each call down, with what \<open>fun\<close> returned: the list of
  events of a traversal is what \<open>traced fun\<close> has written when it ends.
\<close>

type_synonym event = "val list \<times> ReaderToken \<times> val \<times> error option"

definition ev_path :: "event \<Rightarrow> val list" where
  "ev_path ev = fst ev"

definition ev_token :: "event \<Rightarrow> ReaderToken" where
  "ev_token ev = fst (snd ev)"

definition ev_value :: "event \<Rightarrow> val" where
  "ev_value ev = fst (snd (snd ev))"

definition ev_result :: "event \<Rightarrow> error option" where
  "ev_result ev = snd (snd (snd ev))"

definition traced :: "'s ReadFun \<Rightarrow> ('s \<times> event list) ReadFun" where
  "traced fun path tok v sl =
     (let (err, s) = fun path tok v (fst sl) in (err, (s, snd sl @ [(path, tok, v, err)])))"

definition read_events :: "val \<Rightarrow> 's ReadFun \<Rightarrow> val list \<Rightarrow> 's \<Rightarrow> event list" where
  "read_events v fun path s = snd (snd (read v (traced fun) path (s, [])))"

definition ReadEvents :: "Node \<Rightarrow> 's ReadFun \<Rightarrow> 's \<Rightarrow> event list" where
  "ReadEvents n fun s = snd (snd (Read n (traced fun) (s, [])))"

text \<open>The events of the two loops, likewise.\<close>

definition read_keys_events :: "Node \<Rightarrow> 's ReadFun \<Rightarrow> val list \<Rightarrow> string list \<Rightarrow> 's \<Rightarrow> event list" where
  "read_keys_events nc fun path ks s = snd (snd (read_keys nc (traced fun) path ks (s, [])))"

definition read_elems_events :: "'s ReadFun \<Rightarrow> val list \<Rightarrow> nat \<Rightarrow> val list \<Rightarrow> 's \<Rightarrow> event list" where
  "read_elems_events fun path i vs s = snd (snd (read_elems (traced fun) path i vs (s, [])))"

text \<open>
  An event is benign when the callback returned nil or \<open>NodeReadSkip\<close>. A traversal
  that returned \<open>r\<close> with the events \<open>evs\<close> stops at the first event that
  is not benign: either every event is benign and \<open>r\<close> is nil or \<open>NodeReadSkip\<close>,
  or the last event is the only one that is not benign and \<open>r\<close> is what the callback
  returned there.
\<close>

definition benign :: "event \<Rightarrow> bool" where
  "benign ev \<longleftrightarrow> ev_result ev = None \<or> ev_result ev = Some NodeReadSkip"

definition stops :: "event list \<Rightarrow> error option \<Rightarrow> bool" where
  "stops evs r \<longleftrightarrow>
     ((\<forall>ev \<in> set evs. benign ev) \<and> (r = None \<or> r = Some NodeReadSkip))
     \<or> (\<exists>pre ev. evs = pre @ [ev] \<and> (\<forall>ev \<in> set pre. benign ev) \<and> \<not> benign ev \<and> r = ev_result ev)"

text \<open>
  The keys of the Key tokens emitted at the path \<open>p\<close>, in the order of emission.
\<close>

definition key_of :: "val list \<Rightarrow> event \<Rightarrow> string list" where
  "key_of p ev =
     (if ev_path ev = p \<and> ev_token ev = TokenKey
      then (case ev_value ev of VStr k \<Rightarrow> [k] | _ \<Rightarrow> [])
      else [])"

definition keys_at :: "val list \<Rightarrow> event list \<Rightarrow> string list" where
  "keys_at p evs = concat (map (key_of p) evs)"

text \<open>
  The paths at which Key tokens were emitted, and where they may lie: for the traversal
  of a value at \<open>path\<close>, at or below \<open>path\<close>; for the loop over the keys
  \<open>ks\<close> of a map at \<open>path\<close>, at \<open>path\<close> itself, where the keys emitted
  are the first ones of \<open>ks\<close>, or below one of these keys; for the loop over the
  elements of an array from position \<open>i\<close> on, below one of these positions. In each
  case the keys emitted at any one path are in strictly ascending order.
\<close>

definition key_paths :: "event list \<Rightarrow> val list set" where
  "key_paths evs = {ev_path ev | ev. ev \<in> set evs \<and> ev_token ev = TokenKey}"




text \<open>The token that announces a map or an array; a scalar has none.\<close>

fun start_token :: "val \<Rightarrow> ReaderToken option" where
  "start_token (VNode nc) = Some TokenNode"
| "start_token (VArr sc) = Some TokenArray"
| "start_token _ = None"


definition answer_on :: "ReaderToken \<Rightarrow> error \<Rightarrow> unit ReadFun" where
  "answer_on t e path tok v s = (if tok = t then Some e else None, s)"

section \<open>Walking a document for its links\<close>

fun joinPath :: "string list \<Rightarrow> string" where
  "joinPath [] = []"
| "joinPath [k] = k"
| "joinPath (k # ks) = k @ ''/'' @ joinPath ks"

text \<open>
  Modelled from the spec: \<^verbatim>\<open>Walk\<close> and its callback type, which are not among the
  sources. It is "a full depth-first traversal over every Node reachable from node,
  visiting the root first", which calls \<open>visit root current path err\<close> for each Node,
  "where path is the slash-joined sequence of raw keys traversed from root to current
  (root's path is empty), and err is nil for normal visits"; "if visit returns a non-nil
  result, the walk stops immediately and that result becomes the walk's own result".
  The order of siblings is that in which the map enumerates them. The spec does not say
  which text stands for a position of a sequence in a path: it is the parameter \<open>idx\<close>.
\<close>

type_synonym 's WalkFunc = "Node \<Rightarrow> Node \<Rightarrow> string \<Rightarrow> error option \<Rightarrow> 's \<Rightarrow> error option \<times> 's"

function (sequential)
  walk :: "(nat \<Rightarrow> string) \<Rightarrow> Node \<Rightarrow> val \<Rightarrow> string list \<Rightarrow> 's WalkFunc \<Rightarrow> 's \<Rightarrow> error option \<times> 's"
  and walk_entries ::
    "(nat \<Rightarrow> string) \<Rightarrow> Node \<Rightarrow> (string \<times> val) list \<Rightarrow> string list \<Rightarrow> 's WalkFunc \<Rightarrow> 's \<Rightarrow> error option \<times> 's"
  and walk_elems ::
    "(nat \<Rightarrow> string) \<Rightarrow> Node \<Rightarrow> nat \<Rightarrow> val list \<Rightarrow> string list \<Rightarrow> 's WalkFunc \<Rightarrow> 's \<Rightarrow> error option \<times> 's"
where
  "walk idx root (VNode nc) keys visit s =
     (let (err, s) = visit root nc (joinPath keys) None s in
      if err \<noteq> None then (err, s)
      else walk_entries idx root nc keys visit s)"
| "walk idx root (VArr sc) keys visit s = walk_elems idx root 0 sc keys visit s"
| "walk idx root _ keys visit s = (None, s)"
| "walk_entries idx root [] keys visit s = (None, s)"
| "walk_entries idx root ((k, v) # rest) keys visit s =
     (let (err, s) = walk idx root v (keys @ [k]) visit s in
      if err \<noteq> None then (err, s)
      else walk_entries idx root rest keys visit s)"
| "walk_elems idx root i [] keys visit s = (None, s)"
| "walk_elems idx root i (v # vs) keys visit s =
     (let (err, s) = walk idx root v (keys @ [idx i]) visit s in
      if err \<noteq> None then (err, s)
      else walk_elems idx root (Suc i) vs keys visit s)"
  by pat_completeness auto

termination
  by (relation "measure (\<lambda>x. case x of
        Inl (_, _, v, _) \<Rightarrow> size v
      | Inr (Inl (_, _, es, _)) \<Rightarrow> size_list (size_prod (\<lambda>_. 0) size) es
      | Inr (Inr (_, _, _, vs, _)) \<Rightarrow> size_list size vs)")
    simp_all

definition Walk :: "(nat \<Rightarrow> string) \<Rightarrow> Node \<Rightarrow> 's WalkFunc \<Rightarrow> 's \<Rightarrow> error option \<times> 's" where
  "Walk idx root walkFn s = walk idx root (VNode root) [] walkFn s"

text \<open>
  \<^verbatim>\<open>Links\<close>: the map \<^verbatim>\<open>m\<close> that the closure fills is the state of the walk; the
  error that \<^verbatim>\<open>Walk\<close> returns is dropped, as in the code.
\<close>

definition links_visit :: "(string \<rightharpoonup> Link) WalkFunc" where
  "links_visit root cur path err m =
     (if err \<noteq> None then (err, m)
      else (case LinkCast (VNode cur) of
              Some l \<Rightarrow> (None, m(path \<mapsto> l))
            | None \<Rightarrow> (None, m)))"

definition Links :: "(nat \<Rightarrow> string) \<Rightarrow> Node \<Rightarrow> (string \<rightharpoonup> Link)" where
  "Links idx n = snd (Walk idx n links_visit Map.empty)"






text \<open>A visitor keeps the property \<open>I\<close> of the state.\<close>

definition preserves :: "('s \<Rightarrow> bool) \<Rightarrow> 's WalkFunc \<Rightarrow> bool" where
  "preserves I visit \<longleftrightarrow> (\<forall>root cur path err s. I s \<longrightarrow> I (snd (visit root cur path err s)))"

section \<open>The same document in another order\<close>






section \<open>Equality of links\<close>

text \<open>
  \<^verbatim>\<open>Equal\<close> is \<^verbatim>\<open>reflect.DeepEqual\<close> on two values of the type
  \<^verbatim>\<open>Link\<close>. \<^verbatim>\<open>reflect.DeepEqual\<close> sees what the traversals above never look
  at, and what \<open>val\<close> therefore leaves out: whether a map or a slice is nil, which
  map or slice it is (its pointer), and floating-point numbers, where \<^verbatim>\<open>NaN\<close>
  is not equal to itself. It is modelled on values that carry these.

  A \<^verbatim>\<open>float64\<close> is its 64 bits (IEEE 754): a NaN has all the exponent bits set and
  a fraction that is not zero, and \<^verbatim>\<open>==\<close> holds between two floats that are not
  NaN and have the same bits or are both zeros (of either sign).
\<close>

unbundle bit_operations_syntax

type_synonym float64 = "64 word"

definition isNaN :: "float64 \<Rightarrow> bool" where
  "isNaN w \<longleftrightarrow>
     w AND 0x7FF0000000000000 = 0x7FF0000000000000 \<and> w AND 0x000FFFFFFFFFFFFF \<noteq> 0"

definition float_eq :: "float64 \<Rightarrow> float64 \<Rightarrow> bool" where
  "float_eq x y \<longleftrightarrow>
     \<not> isNaN x \<and> \<not> isNaN y
     \<and> (x = y \<or> (x AND 0x7FFFFFFFFFFFFFFF = 0 \<and> y AND 0x7FFFFFFFFFFFFFFF = 0))"

text \<open>
  A Go value as \<^verbatim>\<open>reflect\<close> sees it. \<open>GNilNode\<close> and \<open>GNilArr\<close> are the nil map
  and the nil slice; \<open>GNode p m\<close> is the map at the address \<open>p\<close>, with the entries
  \<open>m\<close> in the order of enumeration, and \<open>GArr p s\<close> the slice whose first
  element is at \<open>p\<close>: one address holds one content. \<open>GFunc\<close> is a function
  value that is not nil, \<open>GOpaque\<close> a comparable value of any other type, named by
  a tag. A \<^verbatim>\<open>Link\<close> is a map: nil, or at an address.
\<close>

datatype gval =
    GNil
  | GBool bool
  | GInt int
  | GFloat float64
  | GStr string
  | GOpaque string
  | GFunc nat
  | GNilArr
  | GArr nat "gval list"
  | GNilNode
  | GNode nat "(string \<times> gval) list"

datatype glink = NilLink | LinkAt nat "(string \<times> gval) list"

fun link_val :: "glink \<Rightarrow> gval" where
  "link_val NilLink = GNilNode"
| "link_val (LinkAt p m) = GNode p m"

text \<open>A Go map holds each key once.\<close>

fun wf_gval :: "gval \<Rightarrow> bool" where
  "wf_gval (GNode p m) = (distinct (map fst m) \<and> (\<forall>kv \<in> set m. wf_gval (snd kv)))"
| "wf_gval (GArr p s) = (\<forall>v \<in> set s. wf_gval v)"
| "wf_gval _ = True"

text \<open>
  \<^verbatim>\<open>reflect.DeepEqual\<close>, after its source. Values of different types are not deeply
  equal. Two maps are when both are nil or both are not, they have the same length, and
  they are the same map or every key of the first is in the second with a deeply equal
  value; two slices when both are nil or both are not, they have the same length, and
  they start at the same address or their elements are deeply equal; two function
  values only when both are nil; everything else when \<^verbatim>\<open>==\<close> holds. (The record
  of visited pairs, which ends the comparison of cyclic values, plays no part on the
  finite values here.)
\<close>

lemma size_map_of_gval:
  "map_of m k = Some (v :: gval) \<Longrightarrow> size v < Suc (size_list (size_prod (\<lambda>_. 0) size) m)"
  by (induction m) (auto split: if_splits)

lemma size_mem_gval: "(x :: gval) \<in> set xs \<Longrightarrow> size x < Suc (size_list size xs)"
  by (induction xs) auto

function DeepEqual :: "gval \<Rightarrow> gval \<Rightarrow> bool" where
  "DeepEqual GNil y = (y = GNil)"
| "DeepEqual (GBool b) y = (y = GBool b)"
| "DeepEqual (GInt i) y = (y = GInt i)"
| "DeepEqual (GFloat a) y = (case y of GFloat b \<Rightarrow> float_eq a b | _ \<Rightarrow> False)"
| "DeepEqual (GStr x) y = (y = GStr x)"
| "DeepEqual (GOpaque x) y = (y = GOpaque x)"
| "DeepEqual (GFunc x) y = False"
| "DeepEqual GNilArr y = (y = GNilArr)"
| "DeepEqual (GArr p1 s1) y =
     (case y of
        GArr p2 s2 \<Rightarrow>
          length s1 = length s2
          \<and> (p1 = p2 \<or> (\<forall>i < length s1. DeepEqual (s1 ! i) (s2 ! i)))
      | _ \<Rightarrow> False)"
| "DeepEqual GNilNode y = (y = GNilNode)"
| "DeepEqual (GNode p1 m1) y =
     (case y of
        GNode p2 m2 \<Rightarrow>
          length m1 = length m2
          \<and> (p1 = p2
             \<or> (\<forall>k \<in> set (map fst m1).
                  (case (map_of m1 k, map_of m2 k) of
                     (Some v1, Some v2) \<Rightarrow> DeepEqual v1 v2
                   | _ \<Rightarrow> False)))
      | _ \<Rightarrow> False)"
  by pat_completeness auto

termination
  by (relation "measure (\<lambda>(a, b). size a)")
    (auto simp: size_mem_gval dest: size_map_of_gval [OF sym])

text \<open>
  \<^verbatim>\<open>Equal\<close>: both arguments have the type \<^verbatim>\<open>Link\<close>, so \<^verbatim>\<open>reflect.DeepEqual\<close>
  compares them as maps.
\<close>

definition Equal :: "glink \<Rightarrow> glink \<Rightarrow> bool" where
  "Equal l l2 = DeepEqual (link_val l) (link_val l2)"

section \<open>The link predicate\<close>

lemma IsLink_iff: "IsLink v \<longleftrightarrow> (\<exists>s. v = VNode [(LinkKey, VStr s)])"
proof
  assume a: "IsLink v"
  then obtain vn where v: "v = VNode vn"
    by (cases v) (simp_all add: IsLink_def)
  from a v have len: "length vn = 1" and
    ok: "(case index_map vn LinkKey of VStr _ \<Rightarrow> True | _ \<Rightarrow> False)"
    by (simp_all add: IsLink_def)
  from len obtain k x where vn: "vn = [(k, x)]"
    by (cases vn) auto
  from ok vn have "k = LinkKey"
    by (cases "k = LinkKey") (simp_all add: index_map_def)
  moreover from ok vn this obtain s where "x = VStr s"
    by (cases x) (simp_all add: index_map_def)
  ultimately show "\<exists>s. v = VNode [(LinkKey, VStr s)]"
    using v vn by simp
next
  assume "\<exists>s. v = VNode [(LinkKey, VStr s)]"
  then show "IsLink v"
    by (auto simp: IsLink_def index_map_def)
qed

lemma LinkCast_Some_iff:
  "LinkCast v = Some l \<longleftrightarrow> (\<exists>s. v = VNode [(LinkKey, VStr s)] \<and> l = [(LinkKey, VStr s)])"
proof (cases "IsLink v")
  case True
  then obtain s where "v = VNode [(LinkKey, VStr s)]"
    using IsLink_iff by blast
  with True show ?thesis
    by (auto simp: LinkCast_def)
next
  case False
  then show ?thesis
    using IsLink_iff by (auto simp: LinkCast_def)
qed


lemma LinkCast_IsLink: "LinkCast v = Some l \<Longrightarrow> IsLink (VNode l) \<and> v = VNode l"
  by (auto simp: LinkCast_Some_iff IsLink_iff)

text \<open>
  C5. \<open>IsLink v\<close> holds exactly when \<open>v\<close> is a Node whose only entry has the
  key \<open>LinkKey\<close> and a string value; \<open>LinkCast v\<close> then returns a link holding
  exactly that entry, and returns no link for every other value.
\<close>

theorem IsLink_LinkCast_spec:
  "(IsLink v \<longleftrightarrow> (\<exists>s. v = VNode [(LinkKey, VStr s)]))
   \<and> (LinkCast v = Some l \<longleftrightarrow> (\<exists>s. v = VNode [(LinkKey, VStr s)] \<and> l = [(LinkKey, VStr s)]))
   \<and> (LinkCast v = None \<longleftrightarrow> \<not> IsLink v)"
proof (intro conjI)
  show "IsLink v \<longleftrightarrow> (\<exists>s. v = VNode [(LinkKey, VStr s)])"
    by (rule IsLink_iff)
  show "LinkCast v = Some l \<longleftrightarrow> (\<exists>s. v = VNode [(LinkKey, VStr s)] \<and> l = [(LinkKey, VStr s)])"
  proof (cases "IsLink v")
    case True
    then obtain s where "v = VNode [(LinkKey, VStr s)]"
      using IsLink_iff by blast
    with True show ?thesis
      by (auto simp: LinkCast_def)
  next
    case False
    then show ?thesis
      using IsLink_iff by (auto simp: LinkCast_def)
  qed
  show "LinkCast v = None \<longleftrightarrow> \<not> IsLink v"
  proof (cases "IsLink v")
    case True
    then obtain s where "v = VNode [(LinkKey, VStr s)]"
      using IsLink_iff by blast
    with True show ?thesis
      by (simp add: LinkCast_def)
  next
    case False
    then show ?thesis
      by (simp add: LinkCast_def)
  qed
qed

theorem IsLink_LinkCast_spec_witness:
  "IsLink (VNode [(''/'', VStr ''Qm1'')])
   \<and> LinkCast (VNode [(''/'', VStr ''Qm1'')]) = Some [(''/'', VStr ''Qm1'')]
   \<and> \<not> IsLink (VNode [(''/'', VStr ''Qm1''), (''a'', VNil)])
   \<and> LinkCast (VNode [(''/'', VInt 1)]) = None"
  using IsLink_LinkCast_spec [of "VNode [(''/'', VStr ''Qm1'')]" "[(''/'', VStr ''Qm1'')]"]
    IsLink_LinkCast_spec [of "VNode [(''/'', VStr ''Qm1''), (''a'', VNil)]" "[]"]
    IsLink_LinkCast_spec [of "VNode [(''/'', VInt 1)]" "[]"]
  by (simp add: LinkKey_def)

section \<open>The hash of a link\<close>

text \<open>
  C6. \<open>Hash\<close> fails with \<open>NoHashInLink\<close> when the string under the marker key is
  empty; with the decoder's error, which is never \<open>NoHashInLink\<close>, when the string is
  not empty and the decoder rejects it; and returns the decoded identifier otherwise.
\<close>

theorem Hash_spec:
  "(LinkStr l = [] \<longrightarrow> Hash dec l = Inl NoHashInLink)
   \<and> (LinkStr l \<noteq> [] \<longrightarrow>
        (\<forall>msg. dec (LinkStr l) = Inl msg \<longrightarrow>
           Hash dec l = Inl (Foreign msg) \<and> Foreign msg \<noteq> NoHashInLink)
        \<and> (\<forall>h. dec (LinkStr l) = Inr h \<longrightarrow> Hash dec l = Inr h))"
  by (simp add: Hash_def)

theorem Hash_spec_witness:
  "Hash (\<lambda>s. if s = ''Qm1'' then Inr (7::nat) else Inl ''bad'') [(''/'', VStr [])] = Inl NoHashInLink
   \<and> Hash (\<lambda>s. if s = ''Qm1'' then Inr (7::nat) else Inl ''bad'') [(''/'', VStr ''zz'')] = Inl (Foreign ''bad'')
   \<and> Hash (\<lambda>s. if s = ''Qm1'' then Inr (7::nat) else Inl ''bad'') [(''/'', VStr ''Qm1'')] = Inr 7"
  using Hash_spec [of "[(''/'', VStr [])]" "\<lambda>s. if s = ''Qm1'' then Inr (7::nat) else Inl ''bad''"]
    Hash_spec [of "[(''/'', VStr ''zz'')]" "\<lambda>s. if s = ''Qm1'' then Inr (7::nat) else Inl ''bad''"]
    Hash_spec [of "[(''/'', VStr ''Qm1'')]" "\<lambda>s. if s = ''Qm1'' then Inr (7::nat) else Inl ''bad''"]
  by (simp add: LinkStr_def index_map_def LinkKey_def)

text \<open>
  C9. The node \<open>{"/": ""}\<close> satisfies the link predicate and casts to a link, yet
  \<open>LinkStr\<close> of that link is empty and \<open>Hash\<close> fails with \<open>NoHashInLink\<close>,
  whatever the decoder.
\<close>

theorem empty_link_has_no_hash:
  "IsLink (VNode [(''/'', VStr [])])
   \<and> LinkCast (VNode [(''/'', VStr [])]) = Some [(''/'', VStr [])]
   \<and> LinkStr [(''/'', VStr [])] = []
   \<and> Hash dec [(''/'', VStr [])] = Inl NoHashInLink"
  by (simp add: IsLink_def LinkCast_def LinkStr_def Hash_def index_map_def LinkKey_def)

section \<open>Control outcomes of the stream reader\<close>

text \<open>
  C3. When \<open>read\<close> hands \<open>NodeReadAbort\<close> or \<open>NodeReadSkip\<close> up to \<open>Read\<close>,
  \<open>Read\<close> returns the nil error; in particular when the first call of the callback
  (the start token of the root) returns one of them, and then no other call is made.
\<close>

theorem Read_swallows_control:
  "(fst (read (VNode n) fun [] s) = Some NodeReadAbort \<or> fst (read (VNode n) fun [] s) = Some NodeReadSkip
      \<longrightarrow> Read n fun s = (None, snd (read (VNode n) fun [] s)))
   \<and> (fst (fun [] TokenNode VNil s) = Some NodeReadAbort \<or> fst (fun [] TokenNode VNil s) = Some NodeReadSkip
      \<longrightarrow> Read n fun s = (None, snd (fun [] TokenNode VNil s)))"
  by (auto simp: Read_def split: prod.splits)

theorem Read_swallows_control_witness:
  "Read [(''a'', VInt 1)] (answer_on TokenNode NodeReadAbort) () = (None, ())
   \<and> Read [(''a'', VInt 1)] (answer_on TokenNode NodeReadSkip) () = (None, ())
   \<and> Read [(''a'', VInt 1)] (answer_on TokenValue NodeReadAbort) () = (None, ())
   \<and> ReadEvents [(''a'', VInt 1)] (answer_on TokenNode NodeReadAbort) ()
       = [([], TokenNode, VNil, Some NodeReadAbort)]"
  using Read_swallows_control [of "[(''a'', VInt 1)]" "answer_on TokenNode NodeReadAbort" "()"]
    Read_swallows_control [of "[(''a'', VInt 1)]" "answer_on TokenNode NodeReadSkip" "()"]
    Read_swallows_control [of "[(''a'', VInt 1)]" "answer_on TokenValue NodeReadAbort" "()"]
  by (simp add: answer_on_def ReadEvents_def Read_def traced_def index_map_def)

text \<open>
  The claim C1 as the spec states it fails: on \<open>{"a": [1], "b": 2}\<close>, with a callback
  that answers \<open>NodeReadSkip\<close> to the start token of an array, the token after
  \<open>TokenArray\<close> is the key \<open>b\<close> of the sibling, and no \<open>TokenEndArray\<close> is emitted.
\<close>

theorem skip_on_start_counterexample:
  "ReadEvents [(''a'', VArr [VInt 1]), (''b'', VInt 2)] (answer_on TokenArray NodeReadSkip) () =
     [([], TokenNode, VNil, None),
      ([], TokenKey, VStr ''a'', None),
      ([VStr ''a''], TokenArray, VNil, Some NodeReadSkip),
      ([], TokenKey, VStr ''b'', None),
      ([VStr ''b''], TokenValue, VInt 2, None),
      ([], TokenEndNode, VNil, None)]
   \<and> TokenEndArray \<notin> set (map ev_token
         (ReadEvents [(''a'', VArr [VInt 1]), (''b'', VInt 2)] (answer_on TokenArray NodeReadSkip) ()))"
  by code_simp

text \<open>
  C1, amended. When the callback answers \<open>NodeReadSkip\<close> to the start token of a map
  or an array \<open>v\<close>, \<open>read\<close> returns at once: the start token is the only token
  emitted for \<open>v\<close> (no Key, Index or Value token for its contents, and no end token),
  and the loop of the enclosing map or array goes on with the next sibling.
\<close>

theorem skip_on_start_token:
  assumes "start_token v = Some t" and "fun path t VNil s = (Some NodeReadSkip, s')"
  shows "read v fun path s = (Some NodeReadSkip, s')
    \<and> read_events v fun path s = [(path, t, VNil, Some NodeReadSkip)]
    \<and> (\<forall>nc k ks p s0. path = p @ [VStr k] \<and> index_map nc k = v \<and> fun p TokenKey (VStr k) s0 = (None, s)
          \<longrightarrow> read_keys nc fun p (k # ks) s0 = read_keys nc fun p ks s')
    \<and> (\<forall>i vs p s0. path = p @ [VInt (int i)] \<and> fun p TokenIndex (VInt (int i)) s0 = (None, s)
          \<longrightarrow> read_elems fun p i (v # vs) s0 = read_elems fun p (Suc i) vs s')"
proof -
  have r: "read v g path u = (Some NodeReadSkip, u')" if "g path t VNil u = (Some NodeReadSkip, u')"
    for g :: "'b ReadFun" and u u'
    using assms(1) that by (cases v) simp_all
  have tr: "traced fun path t VNil (s, []) = (Some NodeReadSkip, (s', [(path, t, VNil, Some NodeReadSkip)]))"
    using assms(2) by (simp add: traced_def)
  show ?thesis
    using r [of "fun" s s', OF assms(2)]
      r [of "traced fun" "(s, [])" "(s', [(path, t, VNil, Some NodeReadSkip)])", OF tr]
    by (auto simp: read_events_def)
qed

theorem skip_on_start_token_witness:
  "read (VArr [VInt 1]) (answer_on TokenArray NodeReadSkip) [VStr ''a''] () = (Some NodeReadSkip, ())
   \<and> read_events (VArr [VInt 1]) (answer_on TokenArray NodeReadSkip) [VStr ''a''] ()
        = [([VStr ''a''], TokenArray, VNil, Some NodeReadSkip)]
   \<and> read_keys [(''a'', VArr [VInt 1]), (''b'', VInt 2)] (answer_on TokenArray NodeReadSkip) [] [''a'', ''b''] ()
        = read_keys [(''a'', VArr [VInt 1]), (''b'', VInt 2)] (answer_on TokenArray NodeReadSkip) [] [''b''] ()"
proof -
  have a: "start_token (VArr [VInt 1]) = Some TokenArray" by simp
  have b: "answer_on TokenArray NodeReadSkip [VStr ''a''] TokenArray VNil () = (Some NodeReadSkip, ())"
    by (simp add: answer_on_def)
  have c: "[VStr ''a''] = [] @ [VStr ''a''] \<and>
    index_map [(''a'', VArr [VInt 1]), (''b'', VInt 2)] ''a'' = VArr [VInt 1] \<and>
    answer_on TokenArray NodeReadSkip [] TokenKey (VStr ''a'') () = (None, ())"
    by (simp add: answer_on_def index_map_def)
  from skip_on_start_token [of "VArr [VInt 1]" TokenArray "answer_on TokenArray NodeReadSkip"
      "[VStr ''a'']" "()" "()", OF a b] c
  show ?thesis by blast
qed

section \<open>Equality of links is reflexive and symmetric\<close>

lemma float_eq_sym: "float_eq x y = float_eq y x"
  by (auto simp: float_eq_def)

lemma map_of_key_ex:
  "k \<in> set (map fst m) \<Longrightarrow> \<exists>v. map_of m k = Some v \<and> (k, v) \<in> set m"
  by (induction m) auto

lemma wf_gval_map_of: "wf_gval (GNode p m) \<Longrightarrow> map_of m k = Some v \<Longrightarrow> wf_gval v"
  by (auto dest!: map_of_SomeD)

lemma DeepEqual_GNode_D:
  assumes "DeepEqual (GNode p1 m1) (GNode p2 m2)" and "p1 \<noteq> p2" and "k \<in> set (map fst m1)"
  shows "\<exists>v1 v2. map_of m1 k = Some v1 \<and> map_of m2 k = Some v2 \<and> DeepEqual v1 v2"
proof -
  from assms(1,2) have "\<forall>k \<in> set (map fst m1).
       (case (map_of m1 k, map_of m2 k) of
          (Some v1, Some v2) \<Rightarrow> DeepEqual v1 v2
        | _ \<Rightarrow> False)"
    by (simp del: set_map)
  from bspec [OF this assms(3)] show ?thesis
    by (simp split: option.splits)
qed

lemma DeepEqual_GNode_I:
  assumes "length m1 = length m2"
    and "\<And>k. k \<in> set (map fst m1) \<Longrightarrow>
           \<exists>v1 v2. map_of m1 k = Some v1 \<and> map_of m2 k = Some v2 \<and> DeepEqual v1 v2"
  shows "DeepEqual (GNode p1 m1) (GNode p2 m2)"
proof -
  have "\<forall>k \<in> set (map fst m1).
       (case (map_of m1 k, map_of m2 k) of
          (Some v1, Some v2) \<Rightarrow> DeepEqual v1 v2
        | _ \<Rightarrow> False)"
    using assms(2) by fastforce
  with assms(1) show ?thesis
    by (simp del: set_map)
qed

lemma DeepEqual_sym_imp:
  "DeepEqual a b \<Longrightarrow> wf_gval a \<Longrightarrow> wf_gval b \<Longrightarrow> DeepEqual b a"
proof (induction a arbitrary: b)
  case (GFloat x)
  then show ?case
    by (cases b) (simp_all add: float_eq_sym)
next
  case (GArr p1 s1)
  from GArr.prems(1) obtain p2 s2 where b: "b = GArr p2 s2"
    by (cases b) simp_all
  show ?case
  proof (cases "p1 = p2")
    case True
    with GArr.prems(1) b show ?thesis by simp
  next
    case False
    from GArr.prems(1) b False have len: "length s1 = length s2"
      and el: "\<forall>i < length s1. DeepEqual (s1 ! i) (s2 ! i)"
      by simp_all
    have "DeepEqual (s2 ! i) (s1 ! i)" if i: "i < length s2" for i
    proof -
      from i len have m: "s1 ! i \<in> set s1" "s2 ! i \<in> set s2" by simp_all
      with GArr.prems(2,3) b have "wf_gval (s1 ! i)" "wf_gval (s2 ! i)" by simp_all
      with GArr.IH [OF m(1)] el i len show ?thesis by simp
    qed
    with len b show ?thesis by simp
  qed
next
  case (GNode p1 m1)
  from GNode.prems(1) obtain p2 m2 where b: "b = GNode p2 m2"
    by (cases b) simp_all
  show ?case
  proof (cases "p1 = p2")
    case True
    with GNode.prems(1) b show ?thesis by simp
  next
    case False
    note de = GNode.prems(1) [unfolded b]
    from de have len: "length m1 = length m2" by simp
    from GNode.prems(2,3) b have d1: "distinct (map fst m1)" and d2: "distinct (map fst m2)"
      by simp_all
    note fwd = DeepEqual_GNode_D [OF de False]
    have sub: "set (map fst m1) \<subseteq> set (map fst m2)"
    proof
      fix k assume "k \<in> set (map fst m1)"
      from fwd [OF this] show "k \<in> set (map fst m2)"
        by (metis map_of_eq_None_iff option.distinct(1) set_map)
    qed
    have "card (set (map fst m1)) = card (set (map fst m2))"
      using distinct_card [OF d1] distinct_card [OF d2] len by (simp del: set_map)
    with sub have keys: "set (map fst m1) = set (map fst m2)"
      by (simp add: card_subset_eq del: set_map)
    have "\<exists>v2 v1. map_of m2 k = Some v2 \<and> map_of m1 k = Some v1 \<and> DeepEqual v2 v1"
      if k: "k \<in> set (map fst m2)" for k
    proof -
      from k keys have k1: "k \<in> set (map fst m1)" by simp
      from fwd [OF k1] obtain v1 v2 where
        v: "map_of m1 k = Some v1" "map_of m2 k = Some v2" "DeepEqual v1 v2"
        by blast
      have w: "wf_gval v1" "wf_gval v2"
        using v GNode.prems(2,3) b wf_gval_map_of by blast+
      from v(1) have "(k, v1) \<in> set m1" by (rule map_of_SomeD)
      moreover have "v1 \<in> Basic_BNFs.snds (k, v1)" by simp
      ultimately have "DeepEqual v2 v1"
        using GNode.IH v(3) w by blast
      with v show ?thesis by blast
    qed
    with len have "DeepEqual (GNode p2 m2) (GNode p1 m1)"
      by (intro DeepEqual_GNode_I) simp_all
    with b show ?thesis by simp
  qed
qed simp_all

lemma DeepEqual_sym: "wf_gval a \<Longrightarrow> wf_gval b \<Longrightarrow> DeepEqual a b = DeepEqual b a"
  using DeepEqual_sym_imp by blast

text \<open>
  C8. \<open>Equal l l\<close> holds for every link, nil or not and whatever it holds, since a
  map is deeply equal to itself. \<open>Equal\<close> is symmetric on links that are Go maps
  (each key held once, at every depth). Two links whose strings under the marker key
  differ, and which are therefore two maps, are not equal, whatever else they hold. A
  nil link and an empty one are not equal.
\<close>

theorem Equal_refl_sym:
  "Equal l l
   \<and> (wf_gval (link_val l1) \<and> wf_gval (link_val l2) \<longrightarrow> Equal l1 l2 = Equal l2 l1)
   \<and> (map_of m1 LinkKey = Some (GStr s1) \<and> map_of m2 LinkKey = Some (GStr s2) \<and> s1 \<noteq> s2
        \<and> (p1 = p2 \<longrightarrow> m1 = m2)
        \<longrightarrow> \<not> Equal (LinkAt p1 m1) (LinkAt p2 m2))
   \<and> \<not> Equal NilLink (LinkAt p [])"
proof (intro conjI impI)
  show "Equal l l"
    by (cases l) (simp_all add: Equal_def)
next
  assume "wf_gval (link_val l1) \<and> wf_gval (link_val l2)"
  then show "Equal l1 l2 = Equal l2 l1"
    unfolding Equal_def using DeepEqual_sym by blast
next
  assume a: "map_of m1 LinkKey = Some (GStr s1) \<and> map_of m2 LinkKey = Some (GStr s2) \<and> s1 \<noteq> s2
        \<and> (p1 = p2 \<longrightarrow> m1 = m2)"
  then have ne: "p1 \<noteq> p2" by auto
  from a have k: "LinkKey \<in> set (map fst m1)"
    by (metis map_of_eq_None_iff option.distinct(1) set_map)
  show "\<not> Equal (LinkAt p1 m1) (LinkAt p2 m2)"
  proof
    assume "Equal (LinkAt p1 m1) (LinkAt p2 m2)"
    then have "DeepEqual (GNode p1 m1) (GNode p2 m2)"
      by (simp add: Equal_def)
    from DeepEqual_GNode_D [OF this ne k] a show False
      by simp
  qed
next
  show "\<not> Equal NilLink (LinkAt p [])"
    by (simp add: Equal_def)
qed

theorem Equal_refl_sym_witness:
  "Equal (LinkAt 1 [(''/'', GFloat 0x7FF8000000000000)]) (LinkAt 1 [(''/'', GFloat 0x7FF8000000000000)])
   \<and> Equal (LinkAt 1 [(''/'', GStr ''Qm1''), (''a'', GInt 1)]) (LinkAt 2 [(''a'', GInt 1), (''/'', GStr ''Qm1'')])
      = Equal (LinkAt 2 [(''a'', GInt 1), (''/'', GStr ''Qm1'')]) (LinkAt 1 [(''/'', GStr ''Qm1''), (''a'', GInt 1)])
   \<and> Equal (LinkAt 1 [(''/'', GStr ''Qm1''), (''a'', GInt 1)]) (LinkAt 2 [(''a'', GInt 1), (''/'', GStr ''Qm1'')])
   \<and> \<not> Equal (LinkAt 3 [(''/'', GStr ''Qm1'')]) (LinkAt 4 [(''/'', GStr ''Qm2'')])
   \<and> \<not> Equal NilLink (LinkAt 5 [])
   \<and> \<not> Equal (LinkAt 1 [(''/'', GFloat 0x7FF8000000000000)]) (LinkAt 2 [(''/'', GFloat 0x7FF8000000000000)])"
proof -
  have w: "wf_gval (link_val (LinkAt 1 [(''/'', GStr ''Qm1''), (''a'', GInt 1)]))
      \<and> wf_gval (link_val (LinkAt 2 [(''a'', GInt 1), (''/'', GStr ''Qm1'')]))"
    by simp
  have h: "map_of [(''/'', GStr ''Qm1'')] LinkKey = Some (GStr ''Qm1'')
      \<and> map_of [(''/'', GStr ''Qm2'')] LinkKey = Some (GStr ''Qm2'') \<and> ''Qm1'' \<noteq> ''Qm2''
      \<and> ((3::nat) = 4 \<longrightarrow> [(''/'', GStr ''Qm1'')] = [(''/'', GStr ''Qm2'')])"
    by (simp add: LinkKey_def)
  have e: "Equal (LinkAt 1 [(''/'', GStr ''Qm1''), (''a'', GInt 1)]) (LinkAt 2 [(''a'', GInt 1), (''/'', GStr ''Qm1'')])"
    by (simp add: Equal_def)
  have n: "\<not> Equal (LinkAt 1 [(''/'', GFloat 0x7FF8000000000000)]) (LinkAt 2 [(''/'', GFloat 0x7FF8000000000000)])"
    by (simp add: Equal_def float_eq_def isNaN_def)
  from Equal_refl_sym [where l = "LinkAt 1 [(''/'', GFloat 0x7FF8000000000000)]"
      and ?l1.0 = "LinkAt 1 [(''/'', GStr ''Qm1''), (''a'', GInt 1)]"
      and ?l2.0 = "LinkAt 2 [(''a'', GInt 1), (''/'', GStr ''Qm1'')]"
      and ?m1.0 = "[(''/'', GStr ''Qm1'')]" and ?s1.0 = "''Qm1''"
      and ?m2.0 = "[(''/'', GStr ''Qm2'')]" and ?s2.0 = "''Qm2''"
      and ?p1.0 = 3 and ?p2.0 = 4 and p = 5] w h e n
  show ?thesis by blast
qed

section \<open>The links of a document\<close>

subsection \<open>Invariants of a walk\<close>

lemma preservesD: "preserves I visit \<Longrightarrow> I s \<Longrightarrow> visit root cur path err s = (e, s') \<Longrightarrow> I s'"
  unfolding preserves_def by (metis snd_conv)

lemma walk_invariant:
  "preserves I visit \<Longrightarrow> I s \<Longrightarrow> I (snd (walk idx root v keys visit s))"
  "preserves I visit \<Longrightarrow> I s \<Longrightarrow> I (snd (walk_entries idx root es keys visit s))"
  "preserves I visit \<Longrightarrow> I s \<Longrightarrow> I (snd (walk_elems idx root i vs keys visit s))"
proof (induction idx root v keys visit s and idx root es keys visit s and idx root i vs keys visit s
    rule: walk_walk_entries_walk_elems.induct)
qed (auto split: prod.splits dest: preservesD)

lemma links_visit_preserves:
  "preserves (\<lambda>m. \<forall>p l. m p = Some l \<longrightarrow> IsLink (VNode l)) links_visit"
  unfolding preserves_def links_visit_def
  by (auto split: option.splits dest: LinkCast_IsLink)

text \<open>
  C10. Every value in the map that \<open>Links\<close> returns satisfies the link predicate:
  it has one entry, under the marker key, and its value is a string.
\<close>

theorem Links_values_are_links:
  "Links idx n p = Some l \<Longrightarrow> IsLink (VNode l) \<and> (\<exists>s. l = [(LinkKey, VStr s)])"
proof -
  let ?I = "\<lambda>m :: string \<rightharpoonup> Link. \<forall>p l. m p = Some l \<longrightarrow> IsLink (VNode l)"
  have "?I (snd (walk idx n (VNode n) [] links_visit Map.empty))"
    by (rule walk_invariant(1) [OF links_visit_preserves]) simp
  then have "IsLink (VNode l)" if "Links idx n p = Some l"
    using that unfolding Links_def Walk_def by blast
  then show "Links idx n p = Some l \<Longrightarrow> IsLink (VNode l) \<and> (\<exists>s. l = [(LinkKey, VStr s)])"
    using IsLink_iff by auto
qed

theorem Links_values_are_links_witness:
  "Links (\<lambda>i. ''0'') [(''a'', VNode [(''/'', VStr ''Qm1'')])] ''a'' = Some [(''/'', VStr ''Qm1'')]
   \<and> IsLink (VNode [(''/'', VStr ''Qm1'')])"
proof -
  have a: "Links (\<lambda>i. ''0'') [(''a'', VNode [(''/'', VStr ''Qm1'')])] ''a'' = Some [(''/'', VStr ''Qm1'')]"
    by (simp add: Links_def Walk_def links_visit_def LinkCast_def IsLink_def index_map_def LinkKey_def)
  from Links_values_are_links [OF a] a show ?thesis by blast
qed

subsection \<open>The paths of the links\<close>




















section \<open>The events of a traversal\<close>

text \<open>
  A traversal with \<open>traced f\<close> returns what the traversal with \<open>f\<close> returns and
  appends its events to the log; from there on the equations of \<open>read\<close> are used
  one branch at a time.
\<close>

lemma traced_apply:
  "traced f path tok v (s, log) =
     (fst (f path tok v s), snd (f path tok v s), log @ [(path, tok, v, fst (f path tok v s))])"
  by (simp add: traced_def split: prod.splits)

lemma traced_read:
  "read v (traced f) path (s, log) =
     (fst (read v f path s), snd (read v f path s), log @ read_events v f path s)"
  "read_keys nc (traced f) path ks (s, log) =
     (fst (read_keys nc f path ks s), snd (read_keys nc f path ks s),
      log @ read_keys_events nc f path ks s)"
  "read_elems (traced f) path i vs (s, log) =
     (fst (read_elems f path i vs s), snd (read_elems f path i vs s),
      log @ read_elems_events f path i vs s)"
proof (induction v f path s and nc f path ks s and f path i vs s
    arbitrary: log and log and log rule: read_read_keys_read_elems.induct)
  case (1 nc f path s)
  let ?r = "f path TokenNode VNil s"
  note ih = "1.IH" [OF refl prod.collapse, simplified]
  show ?case
    by (simp add: read_events_def [of "VNode nc" f path s] traced_apply case_prod_beta Let_def ih)
next
  case (2 sc f path s)
  note ih = "2.IH" [OF refl prod.collapse, simplified]
  show ?case
    by (simp add: read_events_def [of "VArr sc" f path s] traced_apply case_prod_beta Let_def ih)
next
  case (9 nc f path k ks s)
  note ih1 = "9.IH"(1) [OF refl prod.collapse, simplified]
  note ih2 = "9.IH"(2) [OF refl prod.collapse, simplified]
  note ih3 = "9.IH"(3) [OF refl prod.collapse _ _ refl prod.collapse, simplified]
  show ?case
    by (simp add: read_keys_events_def [of nc f path "k # ks" s] traced_apply case_prod_beta Let_def
        ih1 ih2 ih3)
next
  case (11 f path i v vs s)
  note ih1 = "11.IH"(1) [OF refl prod.collapse, simplified]
  note ih2 = "11.IH"(2) [OF refl prod.collapse, simplified]
  note ih3 = "11.IH"(3) [OF refl prod.collapse _ _ refl prod.collapse, simplified]
  show ?case
    by (simp add: read_elems_events_def [of f path i "v # vs" s] traced_apply case_prod_beta Let_def
        ih1 ih2 ih3)
qed (simp_all add: read_events_def read_keys_events_def read_elems_events_def traced_apply)

lemma read_events_VNode:
  "read_events (VNode nc) f path s =
     (let r = f path TokenNode VNil s in
      (path, TokenNode, VNil, fst r) #
      (if fst r \<noteq> None then []
       else let rk = read_keys nc f path (sort (map fst nc)) (snd r) in
         read_keys_events nc f path (sort (map fst nc)) (snd r) @
         (if fst rk \<noteq> None then []
          else [(path, TokenEndNode, VNil, fst (f path TokenEndNode VNil (snd rk)))])))"
  by (subst read_events_def, subst read.simps)
    (simp add: traced_apply traced_read case_prod_beta Let_def)

lemma read_events_VArr:
  "read_events (VArr sc) f path s =
     (let r = f path TokenArray VNil s in
      (path, TokenArray, VNil, fst r) #
      (if fst r \<noteq> None then []
       else let rk = read_elems f path 0 sc (snd r) in
         read_elems_events f path 0 sc (snd r) @
         (if fst rk \<noteq> None then []
          else [(path, TokenEndArray, VNil, fst (f path TokenEndArray VNil (snd rk)))])))"
  by (subst read_events_def, subst read.simps)
    (simp add: traced_apply traced_read case_prod_beta Let_def)

lemma read_events_scalar:
  "start_token v = None \<Longrightarrow>
     read_events v f path s = [(path, TokenValue, v, fst (f path TokenValue v s))]
     \<and> read v f path s = f path TokenValue v s"
  by (cases v) (simp_all add: read_events_def traced_apply)

lemma read_keys_events_Nil: "read_keys_events nc f path [] s = []"
  by (simp add: read_keys_events_def)

lemma read_keys_events_Cons:
  "read_keys_events nc f path (k # ks) s =
     (let r = f path TokenKey (VStr k) s in
      (path, TokenKey, VStr k, fst r) #
      (if fst r = Some NodeReadSkip then read_keys_events nc f path ks (snd r)
       else if fst r \<noteq> None then []
       else let rc = read (index_map nc k) f (path @ [VStr k]) (snd r) in
         read_events (index_map nc k) f (path @ [VStr k]) (snd r) @
         (if fst rc \<noteq> None \<and> fst rc \<noteq> Some NodeReadSkip then []
          else read_keys_events nc f path ks (snd rc))))"
  by (subst read_keys_events_def, subst read_keys.simps)
    (simp add: traced_apply traced_read case_prod_beta Let_def)

lemma read_elems_events_Nil: "read_elems_events f path i [] s = []"
  by (simp add: read_elems_events_def)

lemma read_elems_events_Cons:
  "read_elems_events f path i (v # vs) s =
     (let r = f path TokenIndex (VInt (int i)) s in
      (path, TokenIndex, VInt (int i), fst r) #
      (if fst r = Some NodeReadSkip then read_elems_events f path (Suc i) vs (snd r)
       else if fst r \<noteq> None then []
       else let rc = read v f (path @ [VInt (int i)]) (snd r) in
         read_events v f (path @ [VInt (int i)]) (snd r) @
         (if fst rc \<noteq> None \<and> fst rc \<noteq> Some NodeReadSkip then []
          else read_elems_events f path (Suc i) vs (snd rc))))"
  by (subst read_elems_events_def, subst read_elems.simps)
    (simp add: traced_apply traced_read case_prod_beta Let_def)

lemma Read_traced:
  "ReadEvents n f s = read_events (VNode n) f [] s"
  "fst (Read n (traced f) (s, [])) = fst (Read n f s)"
  "fst (Read n f s) =
     (if fst (read (VNode n) f [] s) = Some NodeReadAbort \<or> fst (read (VNode n) f [] s) = Some NodeReadSkip
      then None else fst (read (VNode n) f [] s))"
  by (simp_all add: ReadEvents_def Read_def traced_read case_prod_beta)

subsection \<open>One lemma for each branch of the code\<close>

lemma read_VNode_start_err:
  assumes "fst (f path TokenNode VNil s) = Some e"
  shows "read_events (VNode nc) f path s = [(path, TokenNode, VNil, Some e)]"
    and "read (VNode nc) f path s = f path TokenNode VNil s"
  using assms by (simp_all add: read_events_VNode case_prod_beta Let_def prod_eq_iff)

lemma read_VNode_keys_err:
  assumes "fst (f path TokenNode VNil s) = None"
    and "fst (read_keys nc f path (sort (map fst nc)) (snd (f path TokenNode VNil s))) = Some e"
  shows "read_events (VNode nc) f path s =
      (path, TokenNode, VNil, None) #
      read_keys_events nc f path (sort (map fst nc)) (snd (f path TokenNode VNil s))"
    and "read (VNode nc) f path s =
      read_keys nc f path (sort (map fst nc)) (snd (f path TokenNode VNil s))"
  using assms by (simp_all add: read_events_VNode case_prod_beta Let_def prod_eq_iff)

lemma read_VNode_end:
  assumes "fst (f path TokenNode VNil s) = None"
    and "fst (read_keys nc f path (sort (map fst nc)) (snd (f path TokenNode VNil s))) = None"
  shows "read_events (VNode nc) f path s =
      (path, TokenNode, VNil, None) #
      read_keys_events nc f path (sort (map fst nc)) (snd (f path TokenNode VNil s)) @
      [(path, TokenEndNode, VNil, fst (read (VNode nc) f path s))]"
    and "read (VNode nc) f path s =
      f path TokenEndNode VNil
        (snd (read_keys nc f path (sort (map fst nc)) (snd (f path TokenNode VNil s))))"
  using assms by (simp_all add: read_events_VNode case_prod_beta Let_def prod_eq_iff)

lemma read_VArr_start_err:
  assumes "fst (f path TokenArray VNil s) = Some e"
  shows "read_events (VArr sc) f path s = [(path, TokenArray, VNil, Some e)]"
    and "read (VArr sc) f path s = f path TokenArray VNil s"
  using assms by (simp_all add: read_events_VArr case_prod_beta Let_def prod_eq_iff)

lemma read_VArr_elems_err:
  assumes "fst (f path TokenArray VNil s) = None"
    and "fst (read_elems f path 0 sc (snd (f path TokenArray VNil s))) = Some e"
  shows "read_events (VArr sc) f path s =
      (path, TokenArray, VNil, None) #
      read_elems_events f path 0 sc (snd (f path TokenArray VNil s))"
    and "read (VArr sc) f path s = read_elems f path 0 sc (snd (f path TokenArray VNil s))"
  using assms by (simp_all add: read_events_VArr case_prod_beta Let_def prod_eq_iff)

lemma read_VArr_end:
  assumes "fst (f path TokenArray VNil s) = None"
    and "fst (read_elems f path 0 sc (snd (f path TokenArray VNil s))) = None"
  shows "read_events (VArr sc) f path s =
      (path, TokenArray, VNil, None) #
      read_elems_events f path 0 sc (snd (f path TokenArray VNil s)) @
      [(path, TokenEndArray, VNil, fst (read (VArr sc) f path s))]"
    and "read (VArr sc) f path s =
      f path TokenEndArray VNil (snd (read_elems f path 0 sc (snd (f path TokenArray VNil s))))"
  using assms by (simp_all add: read_events_VArr case_prod_beta Let_def prod_eq_iff)

lemma read_keys_skip:
  assumes "fst (f path TokenKey (VStr k) s) = Some NodeReadSkip"
  shows "read_keys_events nc f path (k # ks) s =
      (path, TokenKey, VStr k, Some NodeReadSkip) #
      read_keys_events nc f path ks (snd (f path TokenKey (VStr k) s))"
    and "read_keys nc f path (k # ks) s = read_keys nc f path ks (snd (f path TokenKey (VStr k) s))"
  using assms by (simp_all add: read_keys_events_Cons case_prod_beta Let_def)

lemma read_keys_err:
  assumes "fst (f path TokenKey (VStr k) s) = Some e" and "e \<noteq> NodeReadSkip"
  shows "read_keys_events nc f path (k # ks) s = [(path, TokenKey, VStr k, Some e)]"
    and "read_keys nc f path (k # ks) s = f path TokenKey (VStr k) s"
  using assms by (simp_all add: read_keys_events_Cons case_prod_beta Let_def prod_eq_iff)

lemma read_keys_child_err:
  assumes "fst (f path TokenKey (VStr k) s) = None"
    and "fst (read (index_map nc k) f (path @ [VStr k]) (snd (f path TokenKey (VStr k) s))) = Some e"
    and "e \<noteq> NodeReadSkip"
  shows "read_keys_events nc f path (k # ks) s =
      (path, TokenKey, VStr k, None) #
      read_events (index_map nc k) f (path @ [VStr k]) (snd (f path TokenKey (VStr k) s))"
    and "read_keys nc f path (k # ks) s =
      read (index_map nc k) f (path @ [VStr k]) (snd (f path TokenKey (VStr k) s))"
  using assms by (simp_all add: read_keys_events_Cons case_prod_beta Let_def prod_eq_iff)

lemma read_keys_go:
  assumes "fst (f path TokenKey (VStr k) s) = None"
    and "fst (read (index_map nc k) f (path @ [VStr k]) (snd (f path TokenKey (VStr k) s))) = None
       \<or> fst (read (index_map nc k) f (path @ [VStr k]) (snd (f path TokenKey (VStr k) s)))
           = Some NodeReadSkip"
  shows "read_keys_events nc f path (k # ks) s =
      (path, TokenKey, VStr k, None) #
      read_events (index_map nc k) f (path @ [VStr k]) (snd (f path TokenKey (VStr k) s)) @
      read_keys_events nc f path ks
        (snd (read (index_map nc k) f (path @ [VStr k]) (snd (f path TokenKey (VStr k) s))))"
    and "read_keys nc f path (k # ks) s =
      read_keys nc f path ks
        (snd (read (index_map nc k) f (path @ [VStr k]) (snd (f path TokenKey (VStr k) s))))"
  using assms by (auto simp: read_keys_events_Cons case_prod_beta Let_def)

lemma read_elems_skip:
  assumes "fst (f path TokenIndex (VInt (int i)) s) = Some NodeReadSkip"
  shows "read_elems_events f path i (v # vs) s =
      (path, TokenIndex, VInt (int i), Some NodeReadSkip) #
      read_elems_events f path (Suc i) vs (snd (f path TokenIndex (VInt (int i)) s))"
    and "read_elems f path i (v # vs) s =
      read_elems f path (Suc i) vs (snd (f path TokenIndex (VInt (int i)) s))"
  using assms by (simp_all add: read_elems_events_Cons case_prod_beta Let_def)

lemma read_elems_err:
  assumes "fst (f path TokenIndex (VInt (int i)) s) = Some e" and "e \<noteq> NodeReadSkip"
  shows "read_elems_events f path i (v # vs) s = [(path, TokenIndex, VInt (int i), Some e)]"
    and "read_elems f path i (v # vs) s = f path TokenIndex (VInt (int i)) s"
  using assms by (simp_all add: read_elems_events_Cons case_prod_beta Let_def prod_eq_iff)

lemma read_elems_child_err:
  assumes "fst (f path TokenIndex (VInt (int i)) s) = None"
    and "fst (read v f (path @ [VInt (int i)]) (snd (f path TokenIndex (VInt (int i)) s))) = Some e"
    and "e \<noteq> NodeReadSkip"
  shows "read_elems_events f path i (v # vs) s =
      (path, TokenIndex, VInt (int i), None) #
      read_events v f (path @ [VInt (int i)]) (snd (f path TokenIndex (VInt (int i)) s))"
    and "read_elems f path i (v # vs) s =
      read v f (path @ [VInt (int i)]) (snd (f path TokenIndex (VInt (int i)) s))"
  using assms by (simp_all add: read_elems_events_Cons case_prod_beta Let_def prod_eq_iff)

lemma read_elems_go:
  assumes "fst (f path TokenIndex (VInt (int i)) s) = None"
    and "fst (read v f (path @ [VInt (int i)]) (snd (f path TokenIndex (VInt (int i)) s))) = None
       \<or> fst (read v f (path @ [VInt (int i)]) (snd (f path TokenIndex (VInt (int i)) s)))
           = Some NodeReadSkip"
  shows "read_elems_events f path i (v # vs) s =
      (path, TokenIndex, VInt (int i), None) #
      read_events v f (path @ [VInt (int i)]) (snd (f path TokenIndex (VInt (int i)) s)) @
      read_elems_events f path (Suc i) vs
        (snd (read v f (path @ [VInt (int i)]) (snd (f path TokenIndex (VInt (int i)) s))))"
    and "read_elems f path i (v # vs) s =
      read_elems f path (Suc i) vs
        (snd (read v f (path @ [VInt (int i)]) (snd (f path TokenIndex (VInt (int i)) s))))"
  using assms by (auto simp: read_elems_events_Cons case_prod_beta Let_def)

declare read.simps [simp del] read_keys.simps [simp del] read_elems.simps [simp del]

subsection \<open>A traversal stops at the first error\<close>

lemma stops_Nil: "stops [] None"
  by (simp add: stops_def)

lemma stops_single: "stops [(p, t, v, r)] r"
  by (auto simp: stops_def benign_def ev_result_def)

lemma stops_continue:
  "stops evs r \<Longrightarrow> r = None \<or> r = Some NodeReadSkip \<Longrightarrow> \<forall>ev \<in> set evs. benign ev"
  by (auto simp: stops_def benign_def)

lemma stops_append:
  assumes "\<forall>ev \<in> set evs1. benign ev" and "stops evs2 r"
  shows "stops (evs1 @ evs2) r"
proof -
  from assms(2) consider
    (a) "\<forall>ev \<in> set evs2. benign ev" "r = None \<or> r = Some NodeReadSkip"
  | (b) pre ev where "evs2 = pre @ [ev]" "\<forall>ev \<in> set pre. benign ev" "\<not> benign ev" "r = ev_result ev"
    unfolding stops_def by blast
  then show ?thesis
  proof cases
    case a
    with assms(1) show ?thesis by (auto simp: stops_def)
  next
    case b
    then have "evs1 @ evs2 = (evs1 @ pre) @ [ev]" "\<forall>ev \<in> set (evs1 @ pre). benign ev"
      using assms(1) by auto
    with b show ?thesis unfolding stops_def by blast
  qed
qed

lemma stops_Cons:
  "benign ev \<Longrightarrow> stops evs r \<Longrightarrow> stops (ev # evs) r"
  using stops_append [of "[ev]" evs r] by simp

lemma benign_event [simp]:
  "benign (p, t, v, r) \<longleftrightarrow> r = None \<or> r = Some NodeReadSkip"
  by (simp add: benign_def ev_result_def)

lemma stops_snoc:
  "\<forall>ev \<in> set evs. benign ev \<Longrightarrow> stops (evs @ [(p, t, v, r)]) r"
  by (rule stops_append [OF _ stops_single])

lemma read_stops:
  "stops (read_events v f path s) (fst (read v f path s))"
  "stops (read_keys_events nc f path ks s) (fst (read_keys nc f path ks s))"
  "stops (read_elems_events f path i vs s) (fst (read_elems f path i vs s))"
proof (induction v f path s and nc f path ks s and f path i vs s
    rule: read_read_keys_read_elems.induct)
  case (1 nc f path s)
  let ?r = "f path TokenNode VNil s"
  let ?rk = "read_keys nc f path (sort (map fst nc)) (snd ?r)"
  consider (start) e where "fst ?r = Some e"
    | (keys) e where "fst ?r = None" "fst ?rk = Some e"
    | (fin) "fst ?r = None" "fst ?rk = None"
    by (cases "fst ?r"; cases "fst ?rk") auto
  then show ?case
  proof cases
    case start
    then show ?thesis
      by (simp add: read_VNode_start_err [where f = f, OF start] stops_single)
  next
    case keys
    from keys(1) have "\<not> fst ?r \<noteq> None" by simp
    note ih = "1.IH" [OF refl prod.collapse this]
    then show ?thesis
      by (simp add: read_VNode_keys_err [where f = f, OF keys] stops_Cons)
  next
    case fin
    from fin(1) have "\<not> fst ?r \<noteq> None" by simp
    note ih = "1.IH" [OF refl prod.collapse this]
    have "\<forall>ev \<in> set (read_keys_events nc f path (sort (map fst nc)) (snd ?r)). benign ev"
      by (rule stops_continue [OF ih]) (simp add: fin)
    then show ?thesis
      by (subst read_VNode_end(1) [where f = f, OF fin]) (simp add: stops_Cons stops_snoc)
  qed
next
  case (2 sc f path s)
  let ?r = "f path TokenArray VNil s"
  let ?rk = "read_elems f path 0 sc (snd ?r)"
  consider (start) e where "fst ?r = Some e"
    | (elems) e where "fst ?r = None" "fst ?rk = Some e"
    | (fin) "fst ?r = None" "fst ?rk = None"
    by (cases "fst ?r"; cases "fst ?rk") auto
  then show ?case
  proof cases
    case start
    then show ?thesis
      by (simp add: read_VArr_start_err [where f = f, OF start] stops_single)
  next
    case elems
    from elems(1) have "\<not> fst ?r \<noteq> None" by simp
    note ih = "2.IH" [OF refl prod.collapse this]
    then show ?thesis
      by (simp add: read_VArr_elems_err [where f = f, OF elems] stops_Cons)
  next
    case fin
    from fin(1) have "\<not> fst ?r \<noteq> None" by simp
    note ih = "2.IH" [OF refl prod.collapse this]
    have "\<forall>ev \<in> set (read_elems_events f path 0 sc (snd ?r)). benign ev"
      by (rule stops_continue [OF ih]) (simp add: fin)
    then show ?thesis
      by (subst read_VArr_end(1) [where f = f, OF fin]) (simp add: stops_Cons stops_snoc)
  qed
next
  case (9 nc f path k ks s)
  let ?r = "f path TokenKey (VStr k) s"
  let ?rc = "read (index_map nc k) f (path @ [VStr k]) (snd ?r)"
  consider (skip) "fst ?r = Some NodeReadSkip"
    | (err) e where "fst ?r = Some e" "e \<noteq> NodeReadSkip"
    | (child) e where "fst ?r = None" "fst ?rc = Some e" "e \<noteq> NodeReadSkip"
    | (go) "fst ?r = None" "fst ?rc = None \<or> fst ?rc = Some NodeReadSkip"
    by (cases "fst ?r"; cases "fst ?rc") auto
  then show ?case
  proof cases
    case skip
    with "9.IH"(1) [OF refl prod.collapse skip] show ?thesis
      by (simp add: read_keys_skip [where f = f, OF skip] stops_Cons)
  next
    case err
    then show ?thesis
      by (simp add: read_keys_err [where f = f, OF err] stops_single)
  next
    case child
    from child(1) have g: "fst ?r \<noteq> Some NodeReadSkip" "\<not> fst ?r \<noteq> None" by simp_all
    note ihc = "9.IH"(2) [OF refl prod.collapse g]
    then show ?thesis
      by (simp add: read_keys_child_err [where f = f, OF child] stops_Cons)
  next
    case go
    from go(1) have g: "fst ?r \<noteq> Some NodeReadSkip" "\<not> fst ?r \<noteq> None" by simp_all
    from go(2) have c: "\<not> (fst ?rc \<noteq> None \<and> fst ?rc \<noteq> Some NodeReadSkip)" by auto
    note ihc = "9.IH"(2) [OF refl prod.collapse g]
    note ihr = "9.IH"(3) [OF refl prod.collapse g refl prod.collapse c]
    have "\<forall>ev \<in> set (read_events (index_map nc k) f (path @ [VStr k]) (snd ?r)). benign ev"
      by (rule stops_continue [OF ihc go(2)])
    with ihr show ?thesis
      by (simp add: read_keys_go [where f = f, OF go] stops_Cons stops_append)
  qed
next
  case (11 f path i v vs s)
  let ?r = "f path TokenIndex (VInt (int i)) s"
  let ?rc = "read v f (path @ [VInt (int i)]) (snd ?r)"
  consider (skip) "fst ?r = Some NodeReadSkip"
    | (err) e where "fst ?r = Some e" "e \<noteq> NodeReadSkip"
    | (child) e where "fst ?r = None" "fst ?rc = Some e" "e \<noteq> NodeReadSkip"
    | (go) "fst ?r = None" "fst ?rc = None \<or> fst ?rc = Some NodeReadSkip"
    by (cases "fst ?r"; cases "fst ?rc") auto
  then show ?case
  proof cases
    case skip
    with "11.IH"(1) [OF refl prod.collapse skip] show ?thesis
      by (simp add: read_elems_skip [where f = f, OF skip] stops_Cons)
  next
    case err
    then show ?thesis
      by (simp add: read_elems_err [where f = f, OF err] stops_single)
  next
    case child
    from child(1) have g: "fst ?r \<noteq> Some NodeReadSkip" "\<not> fst ?r \<noteq> None" by simp_all
    note ihc = "11.IH"(2) [OF refl prod.collapse g]
    then show ?thesis
      by (simp add: read_elems_child_err [where f = f, OF child] stops_Cons)
  next
    case go
    from go(1) have g: "fst ?r \<noteq> Some NodeReadSkip" "\<not> fst ?r \<noteq> None" by simp_all
    from go(2) have c: "\<not> (fst ?rc \<noteq> None \<and> fst ?rc \<noteq> Some NodeReadSkip)" by auto
    note ihc = "11.IH"(2) [OF refl prod.collapse g]
    note ihr = "11.IH"(3) [OF refl prod.collapse g refl prod.collapse c]
    have "\<forall>ev \<in> set (read_events v f (path @ [VInt (int i)]) (snd ?r)). benign ev"
      by (rule stops_continue [OF ihc go(2)])
    with ihr show ?thesis
      by (simp add: read_elems_go [where f = f, OF go] stops_Cons stops_append)
  qed
qed (simp_all add: read_events_scalar stops_single read_keys_events_Nil read_elems_events_Nil stops_Nil
    read_keys.simps(1) read_elems.simps(1))

lemma stops_error_last:
  assumes "stops (pre @ ev # post) r" and "\<not> benign ev"
  shows "post = [] \<and> r = ev_result ev \<and> (\<forall>e \<in> set pre. benign e)"
proof -
  from assms obtain pre' ev' where
    e: "pre @ ev # post = pre' @ [ev']" and b: "\<forall>e \<in> set pre'. benign e" and r: "r = ev_result ev'"
    unfolding stops_def by auto
  have "post = []"
  proof (rule ccontr)
    assume "post \<noteq> []"
    then have "pre @ ev # post = (pre @ ev # butlast post) @ [last post]"
      by simp
    with e have "pre' = pre @ ev # butlast post"
      by (metis butlast_snoc)
    with b assms(2) show False by simp
  qed
  with e have "pre' = pre" "ev' = ev" by simp_all
  with b r \<open>post = []\<close> show ?thesis by simp
qed

text \<open>
  C4. When the callback returns an error that is neither \<open>NodeReadAbort\<close> nor
  \<open>NodeReadSkip\<close>, that call is the last one of the traversal, \<open>Read\<close> returns
  that very error, and every earlier call returned nil or \<open>NodeReadSkip\<close>.
\<close>

theorem Read_consumer_error:
  assumes "ReadEvents n f s = pre @ (p, tok, v, Some e) # post"
    and "e \<noteq> NodeReadAbort" and "e \<noteq> NodeReadSkip"
  shows "post = [] \<and> fst (Read n f s) = Some e
    \<and> (\<forall>ev \<in> set pre. ev_result ev = None \<or> ev_result ev = Some NodeReadSkip)"
proof -
  have "stops (pre @ (p, tok, v, Some e) # post) (fst (read (VNode n) f [] s))"
    using read_stops(1) [of "VNode n" f "[]" s] assms(1) by (simp add: Read_traced)
  from stops_error_last [OF this] assms(3)
  have "post = []" "fst (read (VNode n) f [] s) = Some e" "\<forall>ev \<in> set pre. benign ev"
    by (simp_all add: ev_result_def)
  with assms(2,3) show ?thesis
    by (simp add: Read_traced benign_def)
qed

theorem Read_consumer_error_witness:
  "ReadEvents [(''a'', VInt 1), (''b'', VInt 2)] (answer_on TokenValue (Foreign ''boom'')) () =
     [([], TokenNode, VNil, None), ([], TokenKey, VStr ''a'', None)]
     @ ([VStr ''a''], TokenValue, VInt 1, Some (Foreign ''boom'')) # []
   \<and> fst (Read [(''a'', VInt 1), (''b'', VInt 2)] (answer_on TokenValue (Foreign ''boom'')) ())
       = Some (Foreign ''boom'')"
proof -
  have e: "ReadEvents [(''a'', VInt 1), (''b'', VInt 2)] (answer_on TokenValue (Foreign ''boom'')) () =
     [([], TokenNode, VNil, None), ([], TokenKey, VStr ''a'', None)]
     @ ([VStr ''a''], TokenValue, VInt 1, Some (Foreign ''boom'')) # []"
    by code_simp
  from Read_consumer_error [OF e] e show ?thesis by simp
qed

section \<open>The order of the keys\<close>

subsection \<open>Keys along the paths\<close>

lemma keys_at_Nil [simp]: "keys_at p [] = []"
  by (simp add: keys_at_def)

lemma keys_at_append [simp]: "keys_at p (xs @ ys) = keys_at p xs @ keys_at p ys"
  by (simp add: keys_at_def)

lemma keys_at_Cons [simp]:
  "keys_at p ((q, t, v, r) # evs) =
     (if q = p \<and> t = TokenKey then (case v of VStr k \<Rightarrow> [k] | _ \<Rightarrow> []) else []) @ keys_at p evs"
  by (simp add: keys_at_def key_of_def ev_path_def ev_token_def ev_value_def)

lemma key_paths_Nil [simp]: "key_paths [] = {}"
  by (simp add: key_paths_def)





lemma not_prefix_snoc [simp]: "\<not> prefix (path @ [a]) path"
  by (auto simp: prefix_def)
















subsection \<open>The order of enumeration does not matter\<close>






subsection \<open>The keys that Read emits\<close>




end
